theory Spec2Isabelle
  imports Complex_Main "HOL-Library.Multiset"
begin

section \<open>Strings and the transliteration boundary\<close>

text \<open>
  A Python \<open>str\<close> is a sequence of Unicode code points, and \<open>len\<close> counts code points;
  a raw username is therefore a list of code points. The first step of the normaliser,
  \<open>unidecode\<close>, belongs to the Unidecode package: it copies a code point below 128 and
  replaces every other code point by the ASCII string its table holds for it (possibly
  empty, possibly several characters). The table is a parameter \<open>tbl\<close> of the model;
  its values are ASCII strings, so everything after the transliteration is a \<open>string\<close>.
\<close>

type_synonym pystr = "nat list"

definition ustr :: "string \<Rightarrow> pystr" where
  "ustr s = map of_char s"

definition unidecode :: "(nat \<Rightarrow> string) \<Rightarrow> pystr \<Rightarrow> string" where
  "unidecode tbl s = concat (map (\<lambda>cp. if cp < 128 then [char_of cp] else tbl cp) s)"

text \<open>
  An excerpt of the package's table for the code points used below:
  U+00DF (sharp s) is transliterated to \<open>ss\<close>, U+00E6 to \<open>ae\<close>, U+00E9 to \<open>e\<close>;
  the excerpt leaves every other code point out (empty replacement). All general
  theorems hold for an arbitrary table.
\<close>

definition table_excerpt :: "nat \<Rightarrow> string" where
  "table_excerpt cp =
     (if cp = 223 then ''ss'' else if cp = 230 then ''ae'' else if cp = 233 then ''e'' else [])"

subsection \<open>Character classes of the regular expressions\<close>

definition is_lower_az :: "char \<Rightarrow> bool" where
  "is_lower_az c = (c \<in> set ''abcdefghijklmnopqrstuvwxyz'')"

definition is_digit :: "char \<Rightarrow> bool" where
  \<comment> \<open>\<open>\d\<close>: the decimal digits (no other byte is a Unicode decimal digit)\<close>
  "is_digit c = (c \<in> set ''0123456789'')"

definition is_space :: "char \<Rightarrow> bool" where
  \<comment> \<open>\<open>\s\<close> and \<open>str.strip\<close>: tab, LF, VT, FF, CR, FS, GS, RS, US, space, NEL, NBSP\<close>
  "is_space c = (c \<in> set [CHR 0x09, CHR 0x0A, CHR 0x0B, CHR 0x0C, CHR 0x0D,
                             CHR 0x1C, CHR 0x1D, CHR 0x1E, CHR 0x1F, CHR 0x20,
                             CHR 0x85, CHR 0xA0])"

definition is_alnum :: "char \<Rightarrow> bool" where
  \<comment> \<open>the class \<open>[a-z0-9]\<close>\<close>
  "is_alnum c = (is_lower_az c \<or> is_digit c)"

definition is_punct_sep :: "char \<Rightarrow> bool" where
  \<comment> \<open>the punctuation of the class \<open>[\s\-_\.@!$+]\<close>\<close>
  "is_punct_sep c = (c \<in> set ''-_.@!$+'')"

definition is_sep :: "char \<Rightarrow> bool" where
  \<comment> \<open>the class \<open>[\s\-_\.@!$+]\<close>\<close>
  "is_sep c = (is_space c \<or> is_punct_sep c)"

definition is_sep2 :: "char \<Rightarrow> bool" where
  \<comment> \<open>the class \<open>[\s\-_\.]\<close> of \<open>remove_separators\<close>\<close>
  "is_sep2 c = (is_space c \<or> c \<in> set ''-_.'')"

definition keep_char :: "char \<Rightarrow> bool" where
  \<comment> \<open>the class \<open>[a-z0-9\s\-_\.@!$+]\<close>\<close>
  "keep_char c = (is_alnum c \<or> is_sep c)"

definition py_lower_char :: "char \<Rightarrow> char" where
  \<comment> \<open>\<open>str.lower\<close> on one byte: A-Z and the Latin-1 capitals move up by 32\<close>
  "py_lower_char c =
     (let n = (of_char c :: nat)
      in if (65 \<le> n \<and> n \<le> 90) \<or> (192 \<le> n \<and> n \<le> 222 \<and> n \<noteq> 215)
         then char_of (n + 32) else c)"

definition py_lower :: "string \<Rightarrow> string" where
  "py_lower s = map py_lower_char s"

definition strip :: "string \<Rightarrow> string" where
  \<comment> \<open>\<open>str.strip()\<close>: leading and trailing whitespace removed\<close>
  "strip s = rev (dropWhile is_space (rev (dropWhile is_space s)))"

function sub_runs :: "(char \<Rightarrow> bool) \<Rightarrow> string \<Rightarrow> string \<Rightarrow> string" where
  \<comment> \<open>\<open>re.sub('[cls]+', rep, s)\<close>: every maximal run of the class becomes \<open>rep\<close>\<close>
  "sub_runs cls rep [] = []"
| "sub_runs cls rep (c # cs) =
     (if cls c then rep @ sub_runs cls rep (dropWhile cls cs)
      else c # sub_runs cls rep cs)"
  by pat_completeness auto
termination
  by (relation "measure (\<lambda>(cls, rep, s). length s)")
     (auto simp: length_dropWhile_le less_Suc_eq_le)

section \<open>Normaliser\<close>

function collapse_repeats :: "string \<Rightarrow> string" where
  \<comment> \<open>\<open>re.sub(r'(.)\1{2,}', r'\1\1', s)\<close>; the dot does not match a line feed\<close>
  "collapse_repeats [] = []"
| "collapse_repeats (c # cs) =
     (if c \<noteq> CHR 0x0A \<and> 2 \<le> length (takeWhile (\<lambda>x. x = c) cs)
      then c # c # collapse_repeats (dropWhile (\<lambda>x. x = c) cs)
      else c # collapse_repeats cs)"
  by pat_completeness auto
termination
  by (relation "measure length") (auto simp: length_dropWhile_le less_Suc_eq_le)

definition remove_separators :: "string \<Rightarrow> string" where
  \<comment> \<open>\<open>re.sub(r'[\s\-_\.]+', '', s)\<close>\<close>
  "remove_separators s = sub_runs is_sep2 [] s"

definition HOMOGLYPHS :: "(char \<times> char) list" where
  \<comment> \<open>the keys of the table that are single bytes (pound, yen, copyright, registered);
      the baht, euro and won signs lie beyond the byte range of a transliterated string\<close>
  "HOMOGLYPHS = [(CHR 0xA3, CHR ''l''), (CHR 0xA5, CHR ''y''),
                 (CHR 0xA9, CHR ''c''), (CHR 0xAE, CHR ''r'')]"

definition replace_homoglyphs :: "string \<Rightarrow> string" where
  "replace_homoglyphs s =
     fold (\<lambda>(k, v) t. map (\<lambda>c. if c = k then v else c) t) HOMOGLYPHS s"

definition LEET_SUBS :: "(char \<times> char) list" where
  "LEET_SUBS = [(CHR ''4'', CHR ''a''), (CHR ''@'', CHR ''a''), (CHR ''8'', CHR ''b''),
                (CHR ''3'', CHR ''e''), (CHR ''6'', CHR ''g''), (CHR ''9'', CHR ''g''),
                (CHR ''1'', CHR ''l''), (CHR ''!'', CHR ''i''), (CHR ''0'', CHR ''o''),
                (CHR ''5'', CHR ''s''), (CHR ''$'', CHR ''s''), (CHR ''7'', CHR ''t''),
                (CHR ''+'', CHR ''t''), (CHR ''2'', CHR ''z'')]"

definition de_leet :: "string \<Rightarrow> string" where
  "de_leet s =
     map (\<lambda>ch. let low = py_lower_char ch
                in case map_of LEET_SUBS low of Some r \<Rightarrow> r | None \<Rightarrow> low) s"

definition stripped_numbers :: "string \<Rightarrow> string" where
  \<comment> \<open>\<open>re.sub(r'\d+', '', s)\<close>\<close>
  "stripped_numbers s = sub_runs is_digit [] s"

fun uniq :: "'a list \<Rightarrow> 'a list \<Rightarrow> 'a list" where
  \<comment> \<open>the loop \<open>for x in variants: if x not in uniq: uniq.append(x)\<close>\<close>
  "uniq acc [] = acc"
| "uniq acc (x # xs) = (if x \<in> set acc then uniq acc xs else uniq (acc @ [x]) xs)"

definition base_of :: "(nat \<Rightarrow> string) \<Rightarrow> pystr option \<Rightarrow> string" where
  \<comment> \<open>lines 79-83; \<open>raw or ""\<close> turns a missing name into the empty string\<close>
  "base_of tbl raw =
     strip (filter keep_char (py_lower (replace_homoglyphs
       (unidecode tbl (case raw of None \<Rightarrow> [] | Some r \<Rightarrow> r)))))"

definition variants_of :: "bool \<Rightarrow> string \<Rightarrow> string list" where
  \<comment> \<open>lines 84-110: the twelve candidate variants, in generation order\<close>
  "variants_of leet base =
     (let v1 = sub_runs is_space '' '' (strip (sub_runs is_sep '' '' base));
          v2 = collapse_repeats v1;
          v3 = remove_separators v2;
          dl_v1 = (if leet then de_leet v1 else v1);
          dl_v2 = (if leet then de_leet v2 else v2);
          dl_v3 = (if leet then de_leet v3 else v3)
      in [v1, v2, v3, dl_v1, dl_v2, dl_v3,
          stripped_numbers v1, stripped_numbers v2, stripped_numbers v3,
          stripped_numbers dl_v1, stripped_numbers dl_v2, stripped_numbers dl_v3])"

definition cleaned_of :: "string list \<Rightarrow> string list" where
  \<comment> \<open>lines 111-116: first occurrences, reduced to \<open>[a-z0-9]\<close>, empties dropped\<close>
  "cleaned_of variants =
     filter (\<lambda>c. c \<noteq> []) (map (sub_runs (\<lambda>c. \<not> is_alnum c) []) (uniq [] variants))"

definition normalize_name_variants :: "(nat \<Rightarrow> string) \<Rightarrow> pystr option \<Rightarrow> bool \<Rightarrow> string list" where
  "normalize_name_variants tbl raw leet = cleaned_of (variants_of leet (base_of tbl raw))"

definition LEET_MODE :: bool where
  "LEET_MODE = True"

section \<open>Similarity engine\<close>

subsection \<open>The matcher of the standard library\<close>

text \<open>
  \<open>name_similarity\<close> calls \<open>SequenceMatcher(None, a, b).ratio()\<close> of Python's
  \<open>difflib\<close>. The definitions below follow that module: \<open>__chain_b\<close> (with the
  automatic purge of popular elements, which is on by default), \<open>find_longest_match\<close>,
  \<open>get_matching_blocks\<close> and \<open>ratio\<close>. No junk predicate is given, so the set of junk
  elements is empty and the two loops of \<open>find_longest_match\<close> that extend a match over
  junk never run; they are left out.
\<close>

fun positions :: "'a \<Rightarrow> 'a list \<Rightarrow> nat \<Rightarrow> nat list" where
  \<comment> \<open>the indices, from \<open>i\<close> on and in increasing order, at which an element occurs\<close>
  "positions x [] i = []"
| "positions x (y # ys) i = (if y = x then i # positions x ys (Suc i) else positions x ys (Suc i))"

definition b2j :: "'a list \<Rightarrow> 'a \<Rightarrow> nat list" where
  \<comment> \<open>\<open>b2j.get(elt, [])\<close> after \<open>__chain_b\<close>: with 200 elements or more, an element that
      occurs more than \<open>n // 100 + 1\<close> times is popular and loses its entry\<close>
  "b2j b elt =
     (let idxs = positions elt b 0; n = length b
      in if 200 \<le> n \<and> n div 100 + 1 < length idxs then [] else idxs)"

type_synonym match = "nat \<times> nat \<times> nat"

fun flm_row :: "nat \<Rightarrow> nat \<Rightarrow> nat \<Rightarrow> (nat \<Rightarrow> nat) \<Rightarrow> nat list
                  \<Rightarrow> (nat \<Rightarrow> nat) \<times> match \<Rightarrow> (nat \<Rightarrow> nat) \<times> match" where
  \<comment> \<open>the inner loop \<open>for j in b2j.get(a[i], nothing)\<close>; a dictionary read with default 0
      is a function, and \<open>j2len.get(j-1, 0)\<close> is 0 at \<open>j = 0\<close>\<close>
  "flm_row i blo bhi j2len [] st = st"
| "flm_row i blo bhi j2len (j # js) (newj2len, (besti, bestj, bestsize)) =
     (if j < blo then flm_row i blo bhi j2len js (newj2len, (besti, bestj, bestsize))
      else if bhi \<le> j then (newj2len, (besti, bestj, bestsize))
      else let k = (if j = 0 then 0 else j2len (j - 1)) + 1
           in flm_row i blo bhi j2len js
                (newj2len(j := k),
                 if bestsize < k then (Suc i - k, Suc j - k, k) else (besti, bestj, bestsize)))"

fun flm_rows :: "'a list \<Rightarrow> 'a list \<Rightarrow> nat \<Rightarrow> nat \<Rightarrow> nat list
                   \<Rightarrow> (nat \<Rightarrow> nat) \<times> match \<Rightarrow> (nat \<Rightarrow> nat) \<times> match" where
  \<comment> \<open>the outer loop \<open>for i in range(alo, ahi)\<close>\<close>
  "flm_rows a b blo bhi [] st = st"
| "flm_rows a b blo bhi (i # is) (j2len, best) =
     flm_rows a b blo bhi is (flm_row i blo bhi j2len (b2j b (a ! i)) (\<lambda>_. 0, best))"

function extend_back :: "'a list \<Rightarrow> 'a list \<Rightarrow> nat \<Rightarrow> nat \<Rightarrow> match \<Rightarrow> match" where
  "extend_back a b alo blo (besti, bestj, bestsize) =
     (if alo < besti \<and> blo < bestj \<and> a ! (besti - 1) = b ! (bestj - 1)
      then extend_back a b alo blo (besti - 1, bestj - 1, bestsize + 1)
      else (besti, bestj, bestsize))"
  by pat_completeness auto
termination
  by (relation "measure (\<lambda>(a, b, alo, blo, besti, bestj, bestsize). besti)") auto

declare extend_back.simps [simp del]

function extend_fwd :: "'a list \<Rightarrow> 'a list \<Rightarrow> nat \<Rightarrow> nat \<Rightarrow> match \<Rightarrow> match" where
  "extend_fwd a b ahi bhi (besti, bestj, bestsize) =
     (if besti + bestsize < ahi \<and> bestj + bestsize < bhi
         \<and> a ! (besti + bestsize) = b ! (bestj + bestsize)
      then extend_fwd a b ahi bhi (besti, bestj, bestsize + 1)
      else (besti, bestj, bestsize))"
  by pat_completeness auto
termination
  by (relation "measure (\<lambda>(a, b, ahi, bhi, besti, bestj, bestsize). ahi - (besti + bestsize))")
     auto

declare extend_fwd.simps [simp del]

definition find_longest_match :: "'a list \<Rightarrow> 'a list \<Rightarrow> nat \<Rightarrow> nat \<Rightarrow> nat \<Rightarrow> nat \<Rightarrow> match" where
  "find_longest_match a b alo ahi blo bhi =
     extend_fwd a b ahi bhi
       (extend_back a b alo blo
          (snd (flm_rows a b blo bhi [alo..<ahi] (\<lambda>_. 0, (alo, blo, 0)))))"

function matching_blocks :: "'a list \<Rightarrow> 'a list \<Rightarrow> (nat \<times> nat \<times> nat \<times> nat) list
                               \<Rightarrow> match list \<Rightarrow> match list" where
  \<comment> \<open>the loop \<open>while queue\<close> of \<open>get_matching_blocks\<close>; the head of the list is the
      element \<open>queue.pop()\<close> takes, the last one appended\<close>
  "matching_blocks a b [] blocks = blocks"
| "matching_blocks a b ((alo, ahi, blo, bhi) # queue) blocks =
     (case find_longest_match a b alo ahi blo bhi of (i, j, k) \<Rightarrow>
        if k \<noteq> 0
        then matching_blocks a b
               ((if i + k < ahi \<and> j + k < bhi then [(i + k, ahi, j + k, bhi)] else [])
                @ (if alo < i \<and> blo < j then [(alo, i, blo, j)] else []) @ queue)
               (blocks @ [(i, j, k)])
        else matching_blocks a b queue blocks)"
  by pat_completeness auto

text \<open>
  The loop ends because every range it pushes is shorter than the one it popped: a match
  of positive size lies inside the range it was searched in. The two predicates below are
  the loop invariants of \<open>find_longest_match\<close> that give this.
\<close>
definition Jinv :: "nat \<Rightarrow> nat \<Rightarrow> nat \<Rightarrow> nat \<Rightarrow> (nat \<Rightarrow> nat) \<Rightarrow> bool" where
  "Jinv alo blo bhi i f = (\<forall>j. f j \<le> i - alo \<and> (f j \<noteq> 0 \<longrightarrow> blo \<le> j \<and> j < bhi \<and> f j \<le> Suc j - blo))"

definition Binv :: "nat \<Rightarrow> nat \<Rightarrow> nat \<Rightarrow> nat \<Rightarrow> match \<Rightarrow> bool" where
  "Binv alo ahi blo bhi m = (case m of (bi, bj, bk) \<Rightarrow>
      (bk = 0 \<and> bi = alo \<and> bj = blo) \<or>
      (0 < bk \<and> alo \<le> bi \<and> blo \<le> bj \<and> bi + bk \<le> ahi \<and> bj + bk \<le> bhi))"

lemma flm_row_inv:
  assumes "alo \<le> i" "i < ahi" "Jinv alo blo bhi i j2len"
    and "Jinv alo blo bhi (Suc i) new" "Binv alo ahi blo bhi best"
    and "flm_row i blo bhi j2len js (new, best) = (new', best')"
  shows "Jinv alo blo bhi (Suc i) new' \<and> Binv alo ahi blo bhi best'"
  using assms(4-6)
proof (induction js arbitrary: new best)
  case Nil
  then show ?case by simp
next
  case (Cons j js)
  obtain bi bj bk where best: "best = (bi, bj, bk)" by (cases best)
  show ?case
  proof (cases "j < blo")
    case True
    with Cons best show ?thesis by simp
  next
    case False
    note jblo = this
    show ?thesis
    proof (cases "bhi \<le> j")
      case True
      with Cons jblo best show ?thesis by simp
    next
      case False
      define k where "k = (if j = 0 then 0 else j2len (j - 1)) + 1"
      have prev: "(if j = 0 then 0 else j2len (j - 1)) \<le> i - alo"
        using assms(3) unfolding Jinv_def by auto
      have prev2: "(if j = 0 then 0 else j2len (j - 1)) \<le> j - blo"
      proof (cases "j = 0 \<or> j2len (j - 1) = 0")
        case True
        then show ?thesis by auto
      next
        case False
        then have "blo \<le> j - 1 \<and> j2len (j - 1) \<le> Suc (j - 1) - blo"
          using assms(3) unfolding Jinv_def by blast
        with False show ?thesis by auto
      qed
      have k1: "k \<le> Suc i - alo" using prev assms(1) unfolding k_def by linarith
      have k2: "k \<le> Suc j - blo" using prev2 jblo unfolding k_def by linarith
      have k0: "0 < k" unfolding k_def by simp
      have J': "Jinv alo blo bhi (Suc i) (new(j := k))"
        using Cons.prems(1) k1 k2 jblo False unfolding Jinv_def by auto
      have B': "Binv alo ahi blo bhi (if bk < k then (Suc i - k, Suc j - k, k) else (bi, bj, bk))"
        using Cons.prems(2) best k0 k1 k2 assms(1,2) jblo False unfolding Binv_def by auto
      have "flm_row i blo bhi j2len js
              (new(j := k), if bk < k then (Suc i - k, Suc j - k, k) else (bi, bj, bk)) = (new', best')"
        using Cons.prems(3) jblo False unfolding best k_def
        by (simp only: flm_row.simps Let_def if_False)
      from Cons.IH [OF J' B' this] show ?thesis .
    qed
  qed
qed

lemma flm_rows_inv:
  assumes "alo \<le> i" "Jinv alo blo bhi i j2len" "Binv alo ahi blo bhi best"
  shows "Binv alo ahi blo bhi (snd (flm_rows a b blo bhi [i..<ahi] (j2len, best)))"
  using assms
proof (induction "ahi - i" arbitrary: i j2len best)
  case 0
  then show ?case by simp
next
  case (Suc n)
  then have lt: "i < ahi" by simp
  obtain new' best' where r: "flm_row i blo bhi j2len (b2j b (a ! i)) (\<lambda>_. 0, best) = (new', best')"
    by (cases "flm_row i blo bhi j2len (b2j b (a ! i)) (\<lambda>_. 0, best)")
  have J0: "Jinv alo blo bhi (Suc i) (\<lambda>_. 0)" unfolding Jinv_def by simp
  from flm_row_inv [OF Suc.prems(1) lt Suc.prems(2) J0 Suc.prems(3) r]
  have J: "Jinv alo blo bhi (Suc i) new'" and B: "Binv alo ahi blo bhi best'" by auto
  have n: "n = ahi - Suc i" using Suc.hyps(2) by simp
  have "alo \<le> Suc i" using Suc.prems(1) by simp
  from Suc.hyps(1) [OF n this J B] show ?case
    using lt r by (simp add: upt_conv_Cons)
qed

lemma extend_back_inv:
  "Binv alo ahi blo bhi m \<Longrightarrow> Binv alo ahi blo bhi (extend_back a b alo blo m)"
proof (induction a b alo blo m rule: extend_back.induct)
  case (1 a b alo blo besti bestj bestsize)
  show ?case
  proof (cases "alo < besti \<and> blo < bestj \<and> a ! (besti - 1) = b ! (bestj - 1)")
    case True
    then have "Binv alo ahi blo bhi (besti - 1, bestj - 1, bestsize + 1)"
      using "1.prems" unfolding Binv_def by auto
    with "1.IH" True show ?thesis by (subst extend_back.simps) simp
  next
    case False
    then show ?thesis using "1.prems" by (subst extend_back.simps) auto
  qed
qed

lemma extend_fwd_inv:
  "Binv alo ahi blo bhi m \<Longrightarrow> Binv alo ahi blo bhi (extend_fwd a b ahi bhi m)"
proof (induction a b ahi bhi m rule: extend_fwd.induct)
  case (1 a b ahi bhi besti bestj bestsize)
  show ?case
  proof (cases "besti + bestsize < ahi \<and> bestj + bestsize < bhi
         \<and> a ! (besti + bestsize) = b ! (bestj + bestsize)")
    case True
    then have "Binv alo ahi blo bhi (besti, bestj, bestsize + 1)"
      using "1.prems" unfolding Binv_def by auto
    with "1.IH" True show ?thesis by (subst extend_fwd.simps) simp
  next
    case False
    then show ?thesis using "1.prems" by (subst extend_fwd.simps) auto
  qed
qed

lemma find_longest_match_bounds:
  assumes "find_longest_match a b alo ahi blo bhi = (i, j, k)" "k \<noteq> 0"
  shows "alo \<le> i \<and> i + k \<le> ahi \<and> blo \<le> j \<and> j + k \<le> bhi"
proof -
  have "Jinv alo blo bhi alo (\<lambda>_. 0)" unfolding Jinv_def by simp
  moreover have "Binv alo ahi blo bhi (alo, blo, 0)" unfolding Binv_def by simp
  ultimately have "Binv alo ahi blo bhi (snd (flm_rows a b blo bhi [alo..<ahi] (\<lambda>_. 0, (alo, blo, 0))))"
    using flm_rows_inv [of alo alo blo bhi "\<lambda>_. 0" ahi "(alo, blo, 0)" a b] by simp
  then have "Binv alo ahi blo bhi (find_longest_match a b alo ahi blo bhi)"
    unfolding find_longest_match_def by (intro extend_fwd_inv extend_back_inv)
  with assms show ?thesis unfolding Binv_def by auto
qed

termination matching_blocks
proof (relation "measure (\<lambda>(a, b, queue, blocks). \<Sum>(alo, ahi, blo, bhi) \<leftarrow> queue. 2 * (ahi - alo) + 1)", goal_cases)
  case 1
  then show ?case by simp
next
  case (2 a b alo ahi blo bhi queue blocks x1 x2 x1a x2a)
  then have "find_longest_match a b alo ahi blo bhi = (x1, x1a, x2a)" "x2a \<noteq> 0" by auto
  from find_longest_match_bounds [OF this]
  have b: "alo \<le> x1" "x1 + x2a \<le> ahi" "0 < x2a" using \<open>x2a \<noteq> 0\<close> by auto
  show ?case using b
    by (cases "x1 + x2a < ahi \<and> x1a + x2a < bhi"; cases "alo < x1 \<and> blo < x1a"; simp; arith)
next
  case (3 a b alo ahi blo bhi queue blocks x1 x2 x1a x2a)
  then show ?case by simp
qed

definition ratio :: "'a list \<Rightarrow> 'a list \<Rightarrow> real" where
  \<comment> \<open>\<open>ratio()\<close> with \<open>_calculate_ratio\<close>; sorting the blocks and merging adjacent ones,
      as \<open>get_matching_blocks\<close> does before it returns, leaves the sum of the sizes as it is\<close>
  "ratio a b =
     (let matches = sum_list (map (\<lambda>(i, j, k). k)
                       (matching_blocks a b [(0, length a, 0, length b)] []));
          len = length a + length b
      in if len \<noteq> 0 then 2 * real matches / real len else 1)"

subsection \<open>Similarity of two raw names\<close>

definition name_similarity :: "string \<Rightarrow> string \<Rightarrow> real" where
  "name_similarity a b = (if a = [] \<or> b = [] then 0 else ratio a b)"

datatype 'a loop = Return 'a | Continue 'a

fun scan_b_vars :: "string \<Rightarrow> string list \<Rightarrow> real \<Rightarrow> real loop" where
  \<comment> \<open>the inner loop \<open>for bv in b_vars\<close> with its early \<open>return best\<close>\<close>
  "scan_b_vars av [] best = Continue best"
| "scan_b_vars av (bv # bvs) best =
     (let sim = name_similarity av bv
      in if best < sim
         then (if 999 / 1000 \<le> sim then Return sim else scan_b_vars av bvs sim)
         else scan_b_vars av bvs best)"

fun scan_a_vars :: "string list \<Rightarrow> string list \<Rightarrow> real \<Rightarrow> real" where
  \<comment> \<open>the outer loop \<open>for av in a_vars\<close>\<close>
  "scan_a_vars [] b_vars best = best"
| "scan_a_vars (av # avs) b_vars best =
     (case scan_b_vars av b_vars best of
        Return r \<Rightarrow> r
      | Continue best' \<Rightarrow> scan_a_vars avs b_vars best')"

definition max_variant_similarity :: "(nat \<Rightarrow> string) \<Rightarrow> pystr option \<Rightarrow> pystr option \<Rightarrow> real" where
  "max_variant_similarity tbl a_raw b_raw =
     scan_a_vars (normalize_name_variants tbl a_raw LEET_MODE)
                 (normalize_name_variants tbl b_raw LEET_MODE) 0"

section \<open>Properties of the normaliser\<close>

lemma sub_runs_nil_filter: "sub_runs cls [] s = filter (\<lambda>c. \<not> cls c) s"
proof (induction cls "[]::string" s rule: sub_runs.induct)
  case (1 cls)
  then show ?case by simp
next
  case (2 cls c cs)
  have "filter (\<lambda>c. \<not> cls c) (dropWhile cls cs) = filter (\<lambda>c. \<not> cls c) cs"
    by (induction cs) auto
  with 2 show ?case by simp
qed

lemma length_sub_runs_le: "length rep \<le> 1 \<Longrightarrow> length (sub_runs cls rep s) \<le> length s"
proof (induction cls rep s rule: sub_runs.induct)
  case (1 cls rep)
  then show ?case by simp
next
  case (2 cls rep c cs)
  have "length (dropWhile cls cs) \<le> length cs" by (rule length_dropWhile_le)
  with 2 show ?case by (auto simp: le_Suc_eq)
qed

lemma length_strip_le: "length (strip s) \<le> length s"
  unfolding strip_def
  by (metis length_dropWhile_le length_rev le_trans)

lemma length_collapse_repeats_le: "length (collapse_repeats s) \<le> length s"
proof (induction s rule: collapse_repeats.induct)
  case 1
  then show ?case by simp
next
  case (2 c cs)
  have "length (takeWhile (\<lambda>x. x = c) cs) + length (dropWhile (\<lambda>x. x = c) cs) = length cs"
    by (metis length_append takeWhile_dropWhile_id)
  with 2 show ?case by (auto split: if_splits)
qed

lemma length_de_leet: "length (de_leet s) = length s"
  by (simp add: de_leet_def)

lemma variants_of_length:
  assumes "v \<in> set (variants_of leet base)"
  shows "length v \<le> length base"
proof -
  define v1 where "v1 = sub_runs is_space '' '' (strip (sub_runs is_sep '' '' base))"
  define v2 where "v2 = collapse_repeats v1"
  define v3 where "v3 = remove_separators v2"
  have l1: "length v1 \<le> length base"
  proof -
    have "length (sub_runs is_sep '' '' base) \<le> length base" by (rule length_sub_runs_le) simp
    moreover have "length (strip (sub_runs is_sep '' '' base)) \<le> length (sub_runs is_sep '' '' base)"
      by (rule length_strip_le)
    moreover have "length v1 \<le> length (strip (sub_runs is_sep '' '' base))"
      unfolding v1_def by (rule length_sub_runs_le) simp
    ultimately show ?thesis by linarith
  qed
  have l2: "length v2 \<le> length base"
    unfolding v2_def using l1 length_collapse_repeats_le le_trans by blast
  have l3: "length v3 \<le> length base"
    unfolding v3_def remove_separators_def sub_runs_nil_filter
    using l2 by (meson length_filter_le le_trans)
  have sn: "\<And>s. length s \<le> length base \<Longrightarrow> length (stripped_numbers s) \<le> length base"
    unfolding stripped_numbers_def sub_runs_nil_filter by (meson length_filter_le le_trans)
  have "v \<in> {v1, v2, v3, de_leet v1, de_leet v2, de_leet v3,
      stripped_numbers v1, stripped_numbers v2, stripped_numbers v3,
      stripped_numbers (de_leet v1), stripped_numbers (de_leet v2), stripped_numbers (de_leet v3)}"
    using assms unfolding variants_of_def Let_def v1_def v2_def v3_def by (auto split: if_splits)
  then show ?thesis
    using l1 l2 l3 sn length_de_leet by auto
qed

lemma set_uniq: "set (uniq acc xs) = set acc \<union> set xs"
  by (induction xs arbitrary: acc) auto

lemma distinct_uniq: "distinct acc \<Longrightarrow> distinct (uniq acc xs)"
  by (induction xs arbitrary: acc) auto

lemma length_uniq_le: "length (uniq acc xs) \<le> length acc + length xs"
proof (induction xs arbitrary: acc)
  case Nil
  then show ?case by simp
next
  case (Cons a xs)
  have "length (uniq (acc @ [a]) xs) \<le> length (acc @ [a]) + length xs" by (rule Cons.IH)
  moreover have "length (uniq acc xs) \<le> length acc + length xs" by (rule Cons.IH)
  ultimately show ?case by auto
qed

lemma base_of_length:
  "length (base_of tbl raw) \<le> length (unidecode tbl (case raw of None \<Rightarrow> [] | Some r \<Rightarrow> r))"
proof -
  have "length (replace_homoglyphs s) = length s" for s
    unfolding replace_homoglyphs_def HOMOGLYPHS_def by simp
  then show ?thesis
    unfolding base_of_def py_lower_def
    by (metis (no_types, lifting) length_strip_le length_filter_le length_map le_trans)
qed

lemma unidecode_ascii: "\<forall>cp \<in> set r. cp < 128 \<Longrightarrow> length (unidecode tbl r) = length r"
  unfolding unidecode_def by (induction r) auto

lemma unidecode_ustr:
  "list_all (\<lambda>c. (of_char c :: nat) < 128) s \<Longrightarrow> unidecode tbl (ustr s) = s"
  unfolding unidecode_def ustr_def by (induction s) auto

lemma cleaned_of_length:
  assumes "v \<in> set (cleaned_of vs)" shows "\<exists>u \<in> set vs. length v \<le> length u"
proof -
  obtain x where "x \<in> set vs" "v = filter is_alnum x"
    using assms unfolding cleaned_of_def sub_runs_nil_filter by (auto simp: set_uniq)
  then show ?thesis using length_filter_le [of is_alnum x] by blast
qed

lemma cleaned_of_alnum:
  assumes "v \<in> set (cleaned_of vs)" shows "v \<noteq> [] \<and> list_all is_alnum v"
  using assms unfolding cleaned_of_def sub_runs_nil_filter
  by (auto simp: list_all_iff)

lemma length_cleaned_of: "length (cleaned_of vs) \<le> length vs"
  unfolding cleaned_of_def
  by (metis (no_types, lifting) length_filter_le length_map length_uniq_le le_trans list.size(3) add_0)

lemma length_variants_of: "length (variants_of leet base) = 12"
  by (simp add: variants_of_def Let_def)

lemma normalize_name_variants_shape:
  "length (normalize_name_variants tbl raw leet) \<le> 12
   \<and> list_all (\<lambda>v. v \<noteq> [] \<and> list_all is_alnum v) (normalize_name_variants tbl raw leet)"
proof -
  have "length (normalize_name_variants tbl raw leet) \<le> 12"
    unfolding normalize_name_variants_def
    using length_cleaned_of [of "variants_of leet (base_of tbl raw)"] length_variants_of by simp
  moreover have "list_all (\<lambda>v. v \<noteq> [] \<and> list_all is_alnum v) (normalize_name_variants tbl raw leet)"
    unfolding normalize_name_variants_def using cleaned_of_alnum by (auto simp: list_all_iff)
  ultimately show ?thesis by simp
qed

lemma base_of_empty: "base_of tbl None = [] \<and> base_of tbl (Some []) = []"
  by (simp add: base_of_def unidecode_def replace_homoglyphs_def HOMOGLYPHS_def py_lower_def strip_def)

lemma variants_of_empty: "cleaned_of (variants_of leet []) = []"
  by (cases leet)
     (simp_all add: cleaned_of_def variants_of_def strip_def remove_separators_def de_leet_def
        stripped_numbers_def)

lemma normalize_name_variants_empty:
  "normalize_name_variants tbl None leet = [] \<and> normalize_name_variants tbl (Some []) leet = []"
  by (simp add: normalize_name_variants_def base_of_empty variants_of_empty)

text \<open>
  Claim C4 (the part the code breaks). The variants are deduplicated before they are
  reduced to letters and digits, and the reduction can make two of them equal again: for
  the name \<open>a b\<close> the result holds \<open>ab\<close> twice. (The other parts of the claim hold: the
  empty name has no variant, there are at most twelve entries, and every entry is a
  non-empty word over \<open>[a-z0-9]\<close>; see \<open>normalize_name_variants_shape\<close> and
  \<open>normalize_name_variants_empty\<close>.)
\<close>

theorem normalize_name_variants_duplicate:
  "normalize_name_variants tbl (Some (ustr ''a b'')) True = [''ab'', ''ab'']
   \<and> \<not> distinct (normalize_name_variants tbl (Some (ustr ''a b'')) True)"
proof -
  have u: "unidecode tbl (ustr ''a b'') = ''a b''" by (rule unidecode_ustr) simp
  have "base_of tbl (Some (ustr ''a b'')) = base_of table_excerpt (Some (ustr ''a b''))"
    by (simp add: base_of_def u unidecode_ustr)
  then have "normalize_name_variants tbl (Some (ustr ''a b'')) True
      = normalize_name_variants table_excerpt (Some (ustr ''a b'')) True"
    by (simp add: normalize_name_variants_def)
  also have "\<dots> = [''ab'', ''ab'']" by code_simp
  finally show ?thesis by simp
qed

text \<open>
  Claim C8, as amended. No variant is longer than the transliteration of the raw name;
  where the raw name consists of ASCII code points the transliteration is the name
  itself, so no variant is longer than the name. The result is a function of the name,
  the table and the flag, hence the same for the same input.
\<close>

theorem variant_length_bound:
  assumes "v \<in> set (normalize_name_variants tbl (Some r) leet)"
  shows "length v \<le> length (unidecode tbl r)
         \<and> ((\<forall>cp \<in> set r. cp < 128) \<longrightarrow> length v \<le> length r)"
proof -
  obtain u where u: "u \<in> set (variants_of leet (base_of tbl (Some r)))" and vu: "length v \<le> length u"
    using assms cleaned_of_length unfolding normalize_name_variants_def by blast
  have "length u \<le> length (base_of tbl (Some r))" using u by (rule variants_of_length)
  also have "\<dots> \<le> length (unidecode tbl r)" using base_of_length [of tbl "Some r"] by simp
  finally have "length v \<le> length (unidecode tbl r)" using vu by simp
  then show ?thesis using unidecode_ascii [of r tbl] by auto
qed

theorem variant_length_bound_witness:
  "''farm'' \<in> set (normalize_name_variants table_excerpt (Some (ustr ''Farm_1'')) True)
   \<and> length ''farm'' \<le> length (unidecode table_excerpt (ustr ''Farm_1''))
   \<and> length ''farm'' \<le> length (ustr ''Farm_1'')"
proof -
  have m: "''farm'' \<in> set (normalize_name_variants table_excerpt (Some (ustr ''Farm_1'')) True)"
    by code_simp
  have a: "\<forall>cp \<in> set (ustr ''Farm_1''). cp < 128" by (simp add: ustr_def)
  from variant_length_bound [OF m] a show ?thesis using m by blast
qed

text \<open>
  The claim as stated fails where the transliteration expands a character: the
  one-character name U+00DF has the variant \<open>ss\<close>.
\<close>

theorem variant_longer_than_input:
  "normalize_name_variants table_excerpt (Some [223]) True = [''ss'']
   \<and> length [223 :: nat] < length ''ss''"
  by code_simp

section \<open>Properties of the similarity engine\<close>

subsection \<open>The ratio lies between 0 and 1\<close>

definition block_sum :: "match list \<Rightarrow> nat" where
  "block_sum ms = sum_list (map (\<lambda>(i, j, k). k) ms)"

fun a_span :: "nat \<times> nat \<times> nat \<times> nat \<Rightarrow> nat" where
  "a_span (alo, ahi, blo, bhi) = ahi - alo"

fun b_span :: "nat \<times> nat \<times> nat \<times> nat \<Rightarrow> nat" where
  "b_span (alo, ahi, blo, bhi) = bhi - blo"

lemma block_sum_append: "block_sum (xs @ ys) = block_sum xs + block_sum ys"
  by (simp add: block_sum_def)

lemma matching_blocks_sum_a:
  "block_sum (matching_blocks a b queue blocks)
     \<le> block_sum blocks + (\<Sum>q \<leftarrow> queue. a_span q)"
proof (induction a b queue blocks rule: matching_blocks.induct)
  case (1 a b blocks)
  then show ?case by simp
next
  case (2 a b alo ahi blo bhi queue blocks)
  obtain i j k where f: "find_longest_match a b alo ahi blo bhi = (i, j, k)"
    by (cases "find_longest_match a b alo ahi blo bhi")
  show ?case
  proof (cases "k = 0")
    case True
    have nk: "\<not> k \<noteq> 0" using True by simp
    from "2.IH"(2) [OF f [symmetric] refl nk]
    have "block_sum (matching_blocks a b queue blocks)
        \<le> block_sum blocks + (\<Sum>q \<leftarrow> queue. a_span q)" by simp
    then show ?thesis using f True by simp
  next
    case False
    from find_longest_match_bounds [OF f False]
    have b: "alo \<le> i" "i + k \<le> ahi" by auto
    have "block_sum (matching_blocks a b ((alo, ahi, blo, bhi) # queue) blocks)
        = block_sum (matching_blocks a b
               ((if i + k < ahi \<and> j + k < bhi then [(i + k, ahi, j + k, bhi)] else [])
                @ (if alo < i \<and> blo < j then [(alo, i, blo, j)] else []) @ queue)
               (blocks @ [(i, j, k)]))"
      using f False by simp
    also have "\<dots> \<le> block_sum (blocks @ [(i, j, k)])
        + (\<Sum>q \<leftarrow> (if i + k < ahi \<and> j + k < bhi then [(i + k, ahi, j + k, bhi)] else [])
                @ (if alo < i \<and> blo < j then [(alo, i, blo, j)] else []) @ queue. a_span q)"
      using "2.IH"(1) [OF f [symmetric] refl False] .
    also have "\<dots> \<le> block_sum blocks + (\<Sum>q \<leftarrow> (alo, ahi, blo, bhi) # queue. a_span q)"
      using b by (auto simp: block_sum_def)
    finally show ?thesis .
  qed
qed

lemma matching_blocks_sum_b:
  "block_sum (matching_blocks a b queue blocks)
     \<le> block_sum blocks + (\<Sum>q \<leftarrow> queue. b_span q)"
proof (induction a b queue blocks rule: matching_blocks.induct)
  case (1 a b blocks)
  then show ?case by simp
next
  case (2 a b alo ahi blo bhi queue blocks)
  obtain i j k where f: "find_longest_match a b alo ahi blo bhi = (i, j, k)"
    by (cases "find_longest_match a b alo ahi blo bhi")
  show ?case
  proof (cases "k = 0")
    case True
    have nk: "\<not> k \<noteq> 0" using True by simp
    from "2.IH"(2) [OF f [symmetric] refl nk]
    have "block_sum (matching_blocks a b queue blocks)
        \<le> block_sum blocks + (\<Sum>q \<leftarrow> queue. b_span q)" by simp
    then show ?thesis using f True by simp
  next
    case False
    from find_longest_match_bounds [OF f False]
    have b: "blo \<le> j" "j + k \<le> bhi" by auto
    have "block_sum (matching_blocks a b ((alo, ahi, blo, bhi) # queue) blocks)
        = block_sum (matching_blocks a b
               ((if i + k < ahi \<and> j + k < bhi then [(i + k, ahi, j + k, bhi)] else [])
                @ (if alo < i \<and> blo < j then [(alo, i, blo, j)] else []) @ queue)
               (blocks @ [(i, j, k)]))"
      using f False by simp
    also have "\<dots> \<le> block_sum (blocks @ [(i, j, k)])
        + (\<Sum>q \<leftarrow> (if i + k < ahi \<and> j + k < bhi then [(i + k, ahi, j + k, bhi)] else [])
                @ (if alo < i \<and> blo < j then [(alo, i, blo, j)] else []) @ queue. b_span q)"
      using "2.IH"(1) [OF f [symmetric] refl False] .
    also have "\<dots> \<le> block_sum blocks + (\<Sum>q \<leftarrow> (alo, ahi, blo, bhi) # queue. b_span q)"
      using b by (auto simp: block_sum_def)
    finally show ?thesis .
  qed
qed

lemma ratio_range: "0 \<le> ratio a b \<and> ratio a b \<le> 1"
proof -
  define m where "m = block_sum (matching_blocks a b [(0, length a, 0, length b)] [])"
  have "m \<le> length a" using matching_blocks_sum_a [of a b "[(0, length a, 0, length b)]" "[]"]
    unfolding m_def by (simp add: block_sum_def)
  moreover have "m \<le> length b" using matching_blocks_sum_b [of a b "[(0, length a, 0, length b)]" "[]"]
    unfolding m_def by (simp add: block_sum_def)
  ultimately have "2 * m \<le> length a + length b" by simp
  then have "2 * real m \<le> real (length a + length b)" by linarith
  then show ?thesis unfolding ratio_def Let_def m_def [symmetric, unfolded block_sum_def]
    by (auto simp: divide_le_eq)
qed

lemma name_similarity_range: "0 \<le> name_similarity a b \<and> name_similarity a b \<le> 1"
  unfolding name_similarity_def using ratio_range by auto

subsection \<open>The two loops of the similarity score\<close>

lemma find_append_opt:
  "find P (xs @ ys) = (case find P xs of Some r \<Rightarrow> Some r | None \<Rightarrow> find P ys)"
  by (induction xs) auto

lemma Max_Cons_absorb:
  fixes b :: real
  assumes "b \<le> s"
  shows "Max (set (b # s # rest)) = Max (set (s # rest))"
proof -
  have "s \<le> Max (set (s # rest))" by simp
  then have "b \<le> Max (set (s # rest))" using assms by linarith
  moreover have "Max (set (b # s # rest)) = max b (Max (set (s # rest)))" by simp
  ultimately show ?thesis by (simp only: max.absorb2)
qed

lemma Max_Cons_drop:
  fixes b :: real
  assumes "s \<le> b"
  shows "Max (set (b # s # rest)) = Max (set (b # rest))"
proof -
  have "set (b # s # rest) = set (s # b # rest)" by auto
  then show ?thesis using Max_Cons_absorb [OF assms, of rest] by simp
qed

lemma scan_b_vars_char:
  assumes "best < 999 / 1000"
  shows "scan_b_vars av bvs best =
     (case find (\<lambda>r. 999 / 1000 \<le> r) (map (name_similarity av) bvs) of
        Some r \<Rightarrow> Return r
      | None \<Rightarrow> Continue (Max (set (best # map (name_similarity av) bvs))))"
  using assms
proof (induction bvs arbitrary: best)
  case Nil
  then show ?case by simp
next
  case (Cons bv bvs)
  define sim where "sim = name_similarity av bv"
  define rest where "rest = map (name_similarity av) bvs"
  have m: "map (name_similarity av) (bv # bvs) = sim # rest" by (simp add: sim_def rest_def)
  show ?case
  proof (cases "best < sim")
    case True
    note bs = this
    show ?thesis
    proof (cases "999 / 1000 \<le> sim")
      case True
      then show ?thesis using bs by (simp add: sim_def Let_def)
    next
      case False
      then have lt: "sim < 999 / 1000" by simp
      have mx: "Max (set (best # sim # rest)) = Max (set (sim # rest))"
        using Max_Cons_absorb [of best sim rest] bs by simp
      have step: "scan_b_vars av (bv # bvs) best = scan_b_vars av bvs sim"
        using bs False by (simp add: sim_def Let_def)
      have f: "find (\<lambda>r. 999 / 1000 \<le> r) (sim # rest) = find (\<lambda>r. 999 / 1000 \<le> r) rest"
        using False by simp
      show ?thesis
        by (simp only: step m f mx Cons.IH [OF lt] rest_def [symmetric])
    qed
  next
    case False
    then have le: "sim \<le> best" by simp
    then have nf: "\<not> 999 / 1000 \<le> sim" using Cons.prems by simp
    have mx: "Max (set (best # sim # rest)) = Max (set (best # rest))"
      using Max_Cons_drop [OF le, of rest] by simp
    have step: "scan_b_vars av (bv # bvs) best = scan_b_vars av bvs best"
      using False by (simp add: sim_def Let_def)
    have f: "find (\<lambda>r. 999 / 1000 \<le> r) (sim # rest) = find (\<lambda>r. 999 / 1000 \<le> r) rest"
      using nf by simp
    show ?thesis
      by (simp only: step m f mx Cons.IH [OF Cons.prems] rest_def [symmetric])
  qed
qed

lemma Max_below:
  assumes "\<forall>r \<in> set rs. (r::real) < c" "rs \<noteq> []" shows "Max (set rs) < c"
  using assms by simp

lemma find_None_below:
  "find (\<lambda>r. c \<le> r) rs = None \<Longrightarrow> \<forall>r \<in> set rs. (r::real) < c"
  by (induction rs) (auto split: if_splits)

definition cross_ratios :: "string list \<Rightarrow> string list \<Rightarrow> real list" where
  "cross_ratios a_vars b_vars = concat (map (\<lambda>av. map (name_similarity av) b_vars) a_vars)"

lemma scan_a_vars_char:
  assumes "best < 999 / 1000"
  shows "scan_a_vars avs bvs best =
     (case find (\<lambda>r. 999 / 1000 \<le> r) (cross_ratios avs bvs) of
        Some r \<Rightarrow> r
      | None \<Rightarrow> Max (set (best # cross_ratios avs bvs)))"
  using assms
proof (induction avs arbitrary: best)
  case Nil
  then show ?case by (simp add: cross_ratios_def)
next
  case (Cons av avs)
  define row where "row = map (name_similarity av) bvs"
  have cr: "cross_ratios (av # avs) bvs = row @ cross_ratios avs bvs"
    by (simp add: cross_ratios_def row_def)
  show ?case
  proof (cases "find (\<lambda>r. 999 / 1000 \<le> r) row")
    case (Some r)
    then show ?thesis
      using scan_b_vars_char [OF Cons.prems, of av bvs]
      by (simp add: cr find_append_opt row_def [symmetric])
  next
    case None
    define best' where "best' = Max (set (best # row))"
    have "\<forall>r \<in> set (best # row). r < 999 / 1000"
      using find_None_below [OF None] Cons.prems by simp
    then have b': "best' < 999 / 1000" unfolding best'_def by (intro Max_below) auto
    have sb: "scan_b_vars av bvs best = Continue best'"
      using scan_b_vars_char [OF Cons.prems, of av bvs] None
      by (simp add: row_def [symmetric] best'_def)
    have "Max (set (best' # cross_ratios avs bvs)) = Max (set (best # row @ cross_ratios avs bvs))"
    proof (cases "cross_ratios avs bvs = []")
      case True
      then show ?thesis by (simp add: best'_def)
    next
      case False
      have "Max (set (best # row) \<union> set (cross_ratios avs bvs))
           = max (Max (set (best # row))) (Max (set (cross_ratios avs bvs)))"
        by (rule Max_Un) (use False in auto)
      then show ?thesis using False by (simp add: best'_def)
    qed
    then show ?thesis
      using Cons.IH [OF b'] sb None
      by (simp add: cr find_append_opt split: option.splits)
  qed
qed

lemma cross_ratios_range: "r \<in> set (cross_ratios avs bvs) \<Longrightarrow> 0 \<le> r \<and> r \<le> 1"
  unfolding cross_ratios_def using name_similarity_range by auto

lemma find_Some_mem: "find P xs = Some r \<Longrightarrow> r \<in> set xs \<and> P r"
  by (induction xs) (auto split: if_splits)

text \<open>
  Claim C1, as amended. The score lies in \<open>[0, 1]\<close>. Reading the ratios of the
  cross product of the two variant lists in the order of the loops (variants of the first
  name outermost), the score is the first ratio that reaches 0.999 when there is one, and
  otherwise the maximum of all ratios; with no ratio at all (a name missing or empty, or a
  variant list empty) it is 0.
\<close>

theorem max_variant_similarity_char:
  "max_variant_similarity tbl a_raw b_raw =
     (let rs = cross_ratios (normalize_name_variants tbl a_raw LEET_MODE)
                            (normalize_name_variants tbl b_raw LEET_MODE)
      in case find (\<lambda>r. 999 / 1000 \<le> r) rs of
           Some r \<Rightarrow> r
         | None \<Rightarrow> if rs = [] then 0 else Max (set rs))
   \<and> 0 \<le> max_variant_similarity tbl a_raw b_raw
   \<and> max_variant_similarity tbl a_raw b_raw \<le> 1
   \<and> max_variant_similarity tbl None b_raw = 0
   \<and> max_variant_similarity tbl a_raw None = 0
   \<and> max_variant_similarity tbl (Some []) b_raw = 0
   \<and> max_variant_similarity tbl a_raw (Some []) = 0
   \<and> cross_ratios [] (normalize_name_variants tbl b_raw LEET_MODE) = []
   \<and> cross_ratios (normalize_name_variants tbl a_raw LEET_MODE) [] = []"
proof -
  define rs where "rs = cross_ratios (normalize_name_variants tbl a_raw LEET_MODE)
                            (normalize_name_variants tbl b_raw LEET_MODE)"
  have gen: "max_variant_similarity tbl x y =
      (case find (\<lambda>r. 999 / 1000 \<le> r) (cross_ratios (normalize_name_variants tbl x LEET_MODE)
                            (normalize_name_variants tbl y LEET_MODE)) of Some r \<Rightarrow> r
       | None \<Rightarrow> Max (set (0 # cross_ratios (normalize_name_variants tbl x LEET_MODE)
                            (normalize_name_variants tbl y LEET_MODE))))" for x y
    unfolding max_variant_similarity_def by (rule scan_a_vars_char) simp
  have rng: "\<forall>r \<in> set rs. 0 \<le> r \<and> r \<le> 1" unfolding rs_def using cross_ratios_range by blast
  have m0: "Max (set (0 # rs)) = (if rs = [] then 0 else Max (set rs))"
  proof (cases "rs = []")
    case True
    then show ?thesis by simp
  next
    case False
    then have "0 \<le> Max (set rs)" using rng by (simp add: Max_ge_iff) (meson last_in_set)
    then show ?thesis using False by (simp add: max.absorb2)
  qed
  have c1: "max_variant_similarity tbl a_raw b_raw =
     (case find (\<lambda>r. 999 / 1000 \<le> r) rs of Some r \<Rightarrow> r
         | None \<Rightarrow> if rs = [] then 0 else Max (set rs))"
    using gen [of a_raw b_raw] m0 unfolding rs_def [symmetric] by (simp split: option.splits)
  have c2: "0 \<le> max_variant_similarity tbl a_raw b_raw \<and> max_variant_similarity tbl a_raw b_raw \<le> 1"
  proof (cases "find (\<lambda>r. 999 / 1000 \<le> r) rs")
    case None
    show ?thesis
    proof (cases "rs = []")
      case True
      then show ?thesis using c1 None by simp
    next
      case False
      then have "Max (set rs) \<in> set rs" by (intro Max_in) auto
      then show ?thesis using c1 None False rng by auto
    qed
  next
    case (Some r)
    then show ?thesis using c1 rng find_Some_mem [OF Some] by auto
  qed
  have e1: "cross_ratios [] ys = []" for ys by (simp add: cross_ratios_def)
  have e2: "cross_ratios xs [] = []" for xs by (simp add: cross_ratios_def)
  have z: "max_variant_similarity tbl None b_raw = 0" "max_variant_similarity tbl a_raw None = 0"
    "max_variant_similarity tbl (Some []) b_raw = 0" "max_variant_similarity tbl a_raw (Some []) = 0"
    by (simp_all add: gen normalize_name_variants_empty e1 e2)
  have c1': "max_variant_similarity tbl a_raw b_raw =
     (let rs = cross_ratios (normalize_name_variants tbl a_raw LEET_MODE)
                            (normalize_name_variants tbl b_raw LEET_MODE)
      in case find (\<lambda>r. 999 / 1000 \<le> r) rs of
           Some r \<Rightarrow> r
         | None \<Rightarrow> if rs = [] then 0 else Max (set rs))"
    using c1 unfolding rs_def Let_def .
  show ?thesis using c1' c2 z e1 e2 by blast
qed

end
